theory Spec2Isabelle
  imports Main "HOL-Library.Multiset"
begin

section \<open>PriorityExpiryCache (src/index.ts)\<close>

text \<open>
  The cache of src/index.ts keeps every item in three places: the Map \<open>items\<close>
  (key to item), one linked list of the AVL tree \<open>expTree\<close> (the items of one
  expTime) and one linked list of the AVL tree \<open>priorityTree\<close> (the items of one
  priority, least recently used first).

  Numbers (priority, expTime, mockTime, maxItems, numItems) are modelled as
  unbounded integers; NaN, infinities and fractions of a JavaScript number are
  outside the model.
\<close>

subsection \<open>Item\<close>

text \<open>
  The user-provided fields of \<open>interface Item\<close>. The four cached references of
  an item (its two lists and its node in each) are not fields of the model:
  the list an item refers to is the list stored in the tree under the item's
  own expTime (priority), and its node is the occurrence of the item in that list.
\<close>

record 'v item =
  key :: string
  val :: 'v
  expTime :: int
  priority :: int

subsection \<open>DoublyLinkedList (@datastructures-js/linked-list)\<close>

text \<open>
  The library's list, head first. \<open>remove\<close> takes a node of the list; a node
  is identified by the item it carries. \<open>head\<close> of an empty list is null.
\<close>

definition dll_head :: "'a list \<Rightarrow> 'a option" where
  "dll_head l = (case l of [] \<Rightarrow> None | x # _ \<Rightarrow> Some x)"

definition dll_insertFirst :: "'a \<Rightarrow> 'a list \<Rightarrow> 'a list" where
  "dll_insertFirst x l = x # l"

definition dll_insertLast :: "'a \<Rightarrow> 'a list \<Rightarrow> 'a list" where
  "dll_insertLast x l = l @ [x]"

definition dll_remove :: "'a \<Rightarrow> 'a list \<Rightarrow> 'a list" where
  "dll_remove x l = remove1 x l"

definition dll_isEmpty :: "'a list \<Rightarrow> bool" where
  "dll_isEmpty l = (l = [])"

subsection \<open>AvlTree (@datastructures-js/binary-search-tree)\<close>

text \<open>
  The library's tree is used as an ordered dictionary from a number (the
  \<open>key\<close> option of the constructor: expTime or priority) to a node value.
  It is modelled by its contents in ascending key order. \<open>avl_setValue\<close> is
  the effect, seen through the tree, of mutating the list a node value refers to.
\<close>

type_synonym 'a avl = "(int \<times> 'a) list"

definition avl_min :: "'a avl \<Rightarrow> (int \<times> 'a) option" where
  "avl_min t = (case t of [] \<Rightarrow> None | n # _ \<Rightarrow> Some n)"

definition avl_findKey :: "int \<Rightarrow> 'a avl \<Rightarrow> 'a option" where
  "avl_findKey k t = map_of t k"

fun avl_insert :: "int \<Rightarrow> 'a \<Rightarrow> 'a avl \<Rightarrow> 'a avl" where
  "avl_insert k v [] = [(k, v)]"
| "avl_insert k v (n # t) =
     (if k < fst n then (k, v) # n # t
      else if k = fst n then (k, v) # t
      else n # avl_insert k v t)"

fun avl_setValue :: "int \<Rightarrow> 'a \<Rightarrow> 'a avl \<Rightarrow> 'a avl" where
  "avl_setValue k v [] = []"
| "avl_setValue k v (n # t) =
     (if k = fst n then (k, v) # t else n # avl_setValue k v t)"

definition avl_removeNode :: "int \<Rightarrow> 'a avl \<Rightarrow> 'a avl" where
  "avl_removeNode k t = filter (\<lambda>n. fst n \<noteq> k) t"

subsection \<open>The cache\<close>

record 'v cache =
  maxItems :: int
  mockTime :: int
  items :: "(string \<times> 'v item) list"
  numItems :: int
  expTree :: "'v item list avl"
  priorityTree :: "'v item list avl"

text \<open>The Map \<open>items\<close>, in insertion order: get, set and delete of a JavaScript Map.\<close>

definition map_get :: "string \<Rightarrow> (string \<times> 'a) list \<Rightarrow> 'a option" where
  "map_get k m = map_of m k"

fun map_set :: "string \<Rightarrow> 'a \<Rightarrow> (string \<times> 'a) list \<Rightarrow> (string \<times> 'a) list" where
  "map_set k v [] = [(k, v)]"
| "map_set k v (p # m) = (if fst p = k then (k, v) # m else p # map_set k v m)"

definition map_delete :: "string \<Rightarrow> (string \<times> 'a) list \<Rightarrow> (string \<times> 'a) list" where
  "map_delete k m = filter (\<lambda>p. fst p \<noteq> k) m"

text \<open>\<open>constructor(maxItems)\<close>: every field at its initialiser, maxItems as given.\<close>

definition new_cache :: "int \<Rightarrow> 'v cache" where
  "new_cache n = \<lparr>maxItems = n, mockTime = 0, items = [], numItems = 0,
     expTree = [], priorityTree = []\<rparr>"

definition setMockTime :: "int \<Rightarrow> 'v cache \<Rightarrow> 'v cache" where
  "setMockTime t s = s\<lparr>mockTime := t\<rparr>"

text \<open>\<open>updateExpTreeAndLinkedListForExpTime\<close>: a new list for a new expTime,
  otherwise the item goes to the head of the existing list.\<close>

definition updateExpTreeAndLinkedListForExpTime :: "'v item \<Rightarrow> 'v cache \<Rightarrow> 'v cache" where
  "updateExpTreeAndLinkedListForExpTime it s =
     (case avl_findKey (expTime it) (expTree s) of
        None \<Rightarrow> s\<lparr>expTree := avl_insert (expTime it) (dll_insertFirst it []) (expTree s)\<rparr>
      | Some l \<Rightarrow> s\<lparr>expTree := avl_setValue (expTime it) (dll_insertFirst it l) (expTree s)\<rparr>)"

text \<open>\<open>updatePriorityTreeAndLinkedListForPriority\<close>: a new list for a new
  priority, otherwise the item goes to the tail (most recently used) of the
  existing list.\<close>

definition updatePriorityTreeAndLinkedListForPriority :: "'v item \<Rightarrow> 'v cache \<Rightarrow> 'v cache" where
  "updatePriorityTreeAndLinkedListForPriority it s =
     (case avl_findKey (priority it) (priorityTree s) of
        None \<Rightarrow> s\<lparr>priorityTree := avl_insert (priority it) (dll_insertLast it []) (priorityTree s)\<rparr>
      | Some l \<Rightarrow> s\<lparr>priorityTree := avl_setValue (priority it) (dll_insertLast it l) (priorityTree s)\<rparr>)"

text \<open>\<open>updateExpTreeAndLinkedListForItemRemoval\<close>: the item leaves its list; a
  list that becomes empty is removed from the tree with its node. An item
  without a list (the narrowing \<open>if\<close>) changes nothing.\<close>

definition updateExpTreeAndLinkedListForItemRemoval :: "'v item \<Rightarrow> 'v cache \<Rightarrow> 'v cache" where
  "updateExpTreeAndLinkedListForItemRemoval it s =
     (case avl_findKey (expTime it) (expTree s) of
        None \<Rightarrow> s
      | Some l \<Rightarrow>
          (let l' = dll_remove it l in
           if dll_isEmpty l' then s\<lparr>expTree := avl_removeNode (expTime it) (expTree s)\<rparr>
           else s\<lparr>expTree := avl_setValue (expTime it) l' (expTree s)\<rparr>))"

definition updatePriorityTreeAndLinkedListForItemRemoval :: "'v item \<Rightarrow> 'v cache \<Rightarrow> 'v cache" where
  "updatePriorityTreeAndLinkedListForItemRemoval it s =
     (case avl_findKey (priority it) (priorityTree s) of
        None \<Rightarrow> s
      | Some l \<Rightarrow>
          (let l' = dll_remove it l in
           if dll_isEmpty l' then s\<lparr>priorityTree := avl_removeNode (priority it) (priorityTree s)\<rparr>
           else s\<lparr>priorityTree := avl_setValue (priority it) l' (priorityTree s)\<rparr>))"

text \<open>\<open>addItem\<close> and \<open>deleteItem\<close>.\<close>

definition addItem :: "string \<Rightarrow> 'v \<Rightarrow> int \<Rightarrow> int \<Rightarrow> 'v cache \<Rightarrow> 'v cache" where
  "addItem k v p e s =
     (let it = \<lparr>key = k, val = v, expTime = e, priority = p\<rparr>;
          s1 = updateExpTreeAndLinkedListForExpTime it s;
          s2 = updatePriorityTreeAndLinkedListForPriority it s1
      in s2\<lparr>numItems := numItems s2 + 1, items := map_set k it (items s2)\<rparr>)"

definition deleteItem :: "'v item \<Rightarrow> 'v cache \<Rightarrow> 'v cache" where
  "deleteItem it s =
     (let s1 = updateExpTreeAndLinkedListForItemRemoval it s;
          s2 = updatePriorityTreeAndLinkedListForItemRemoval it s1
      in s2\<lparr>numItems := numItems s2 - 1, items := map_delete (key it) (items s2)\<rparr>)"

text \<open>
  \<open>get(key)\<close>: the result (\<open>None\<close> is \<open>undefined\<close>) and the cache afterwards.
\<close>

definition get :: "'v cache \<Rightarrow> string \<Rightarrow> 'v option \<times> 'v cache" where
  "get s k =
     (case map_get k (items s) of
        Some it \<Rightarrow>
          if expTime it > mockTime s then
            (Some (val it),
             (case avl_findKey (priority it) (priorityTree s) of
                Some l \<Rightarrow>
                  s\<lparr>priorityTree :=
                      avl_setValue (priority it) (dll_insertLast it (dll_remove it l))
                        (priorityTree s)\<rparr>
              | None \<Rightarrow> s))
          else (None, s)
      | None \<Rightarrow> (None, s))"

text \<open>
  \<open>set(key, value, priority, expireTime)\<close>. \<open>deleteItem(itemToEvict)\<close> reads a
  property of its argument, so it throws a TypeError when the head of the
  chosen list is null.
\<close>

datatype error = TypeError

definition set_op :: "'v cache \<Rightarrow> string \<Rightarrow> 'v \<Rightarrow> int \<Rightarrow> int \<Rightarrow> error + 'v cache" where
  "set_op s k v p e =
     (case map_get k (items s) of
        Some it \<Rightarrow> Inr (addItem k v p e (deleteItem it s))
      | None \<Rightarrow>
          if numItems s \<ge> maxItems s then
            (case avl_min (expTree s) of
               Some (t, l) \<Rightarrow>
                 if t \<le> mockTime s then
                   (case dll_head l of
                      Some itemToEvict \<Rightarrow> Inr (addItem k v p e (deleteItem itemToEvict s))
                    | None \<Rightarrow> Inl TypeError)
                 else
                   (case avl_min (priorityTree s) of
                      Some (q, l') \<Rightarrow>
                        (case dll_head l' of
                           Some itemToEvict \<Rightarrow> Inr (addItem k v p e (deleteItem itemToEvict s))
                         | None \<Rightarrow> Inl TypeError)
                    | None \<Rightarrow> Inr (addItem k v p e s))
             | None \<Rightarrow> Inr (addItem k v p e s))
          else Inr (addItem k v p e s))"

subsection \<open>Sequences of calls\<close>

datatype 'v call = Get string | Set string 'v int int | SetMockTime int

fun step :: "'v call \<Rightarrow> 'v cache \<Rightarrow> error + 'v cache" where
  "step (Get k) s = Inr (snd (get s k))"
| "step (Set k v p e) s = set_op s k v p e"
| "step (SetMockTime t) s = Inr (setMockTime t s)"

fun run :: "'v cache \<Rightarrow> 'v call list \<Rightarrow> error + 'v cache" where
  "run s [] = Inr s"
| "run s (c # cs) = (case step c s of Inl err \<Rightarrow> Inl err | Inr s' \<Rightarrow> run s' cs)"


subsection \<open>Invariants of the three structures\<close>

text \<open>
  All items of a tree, group after group; a tree is well formed when its keys
  ascend strictly, no group is empty and every item sits in the group of its
  own expTime (priority).
\<close>


definition members :: "'a list avl \<Rightarrow> 'a list" where
  "members t = concat (map snd t)"

definition tree_ok :: "('a \<Rightarrow> int) \<Rightarrow> 'a list avl \<Rightarrow> bool" where
  "tree_ok f t \<longleftrightarrow> sorted_wrt (<) (map fst t) \<and> (\<forall>n \<in> set t. snd n \<noteq> [] \<and> (\<forall>x \<in> set (snd n). f x = fst n))"

definition cache_inv :: "'v cache \<Rightarrow> bool" where
  "cache_inv s \<longleftrightarrow>
     distinct (map fst (items s)) \<and> (\<forall>p \<in> set (items s). key (snd p) = fst p) \<and>
     numItems s = int (length (items s)) \<and>
     tree_ok expTime (expTree s) \<and> tree_ok priority (priorityTree s) \<and>
     mset (members (expTree s)) = mset (map snd (items s)) \<and>
     mset (members (priorityTree s)) = mset (map snd (items s))"


subsection \<open>Recency of use\<close>

text \<open>
  The order of use the eviction policy speaks of, written from the calls alone
  and not from the lists of priorityTree: the present entries, the least
  recently touched first. A get that returns a value touches the entry it
  returns; a set touches the entry it inserts; an entry that a set removes
  (the replaced or the evicted one) leaves the order; setMockTime touches
  nothing. \<open>recency s r cs\<close> is the order after the calls \<open>cs\<close> from cache
  \<open>s\<close> with order \<open>r\<close>.
\<close>

fun touch :: "'v call \<Rightarrow> 'v cache \<Rightarrow> 'v cache \<Rightarrow> 'v item list \<Rightarrow> 'v item list" where
  "touch (Get k) s s' r =
     (case map_get k (items s) of
        Some it \<Rightarrow> (case fst (get s k) of Some _ \<Rightarrow> remove1 it r @ [it] | None \<Rightarrow> r)
      | None \<Rightarrow> r)"
| "touch (Set k v p e) s s' r =
     filter (\<lambda>x. key x \<noteq> k \<and> map_get (key x) (items s') = Some x) r @
     (case map_get k (items s') of Some it \<Rightarrow> [it] | None \<Rightarrow> [])"
| "touch (SetMockTime t) s s' r = r"

fun recency :: "'v cache \<Rightarrow> 'v item list \<Rightarrow> 'v call list \<Rightarrow> 'v item list" where
  "recency s r [] = r"
| "recency s r (c # cs) =
     (case step c s of Inl err \<Rightarrow> r | Inr s' \<Rightarrow> recency s' (touch c s s' r) cs)"

text \<open>The lists of priorityTree agree with the recency order.\<close>

definition lru_inv :: "'v cache \<Rightarrow> 'v item list \<Rightarrow> bool" where
  "lru_inv s r \<longleftrightarrow> mset r = mset (map snd (items s)) \<and>
     (\<forall>q l. avl_findKey q (priorityTree s) = Some l \<longrightarrow> l = filter (\<lambda>x. priority x = q) r)"

subsection \<open>Example caches\<close>


definition total_members :: "'a list avl \<Rightarrow> nat" where
  "total_members t = sum_list (map (\<lambda>n. length (snd n)) t)"

definition itemA :: "int item" where "itemA = \<lparr>key = ''A'', val = 1, expTime = 100, priority = 15\<rparr>"
definition itemB :: "int item" where "itemB = \<lparr>key = ''B'', val = 2, expTime = 103, priority = 5\<rparr>"
definition itemB15 :: "int item" where "itemB15 = \<lparr>key = ''B'', val = 2, expTime = 103, priority = 15\<rparr>"

definition calls_expired :: "int call list" where
  "calls_expired = [Set ''A'' 1 15 100, Set ''B'' 2 5 103, SetMockTime 100]"

definition cache_expired :: "int cache" where
  "cache_expired = \<lparr>maxItems = 2, mockTime = 100, items = [(''A'', itemA), (''B'', itemB)], numItems = 2,
     expTree = [(100, [itemA]), (103, [itemB])], priorityTree = [(5, [itemB]), (15, [itemA])]\<rparr>"

definition calls_full :: "int call list" where
  "calls_full = [Set ''A'' 1 15 100, Set ''B'' 2 15 103]"

definition cache_full :: "int cache" where
  "cache_full = \<lparr>maxItems = 2, mockTime = 0, items = [(''A'', itemA), (''B'', itemB15)], numItems = 2,
     expTree = [(100, [itemA]), (103, [itemB15])], priorityTree = [(15, [itemA, itemB15])]\<rparr>"

definition cache_zero :: "int cache" where
  "cache_zero = \<lparr>maxItems = 0, mockTime = 0, items = [(''A'', itemA)], numItems = 1,
     expTree = [(100, [itemA])], priorityTree = [(15, [itemA])]\<rparr>"

definition calls_lru :: "int call list" where
  "calls_lru = [Set ''A'' 1 15 100, Set ''B'' 2 15 103, Get ''A'']"

definition cache_lru :: "int cache" where
  "cache_lru = \<lparr>maxItems = 2, mockTime = 0, items = [(''A'', itemA), (''B'', itemB15)], numItems = 2,
     expTree = [(100, [itemA]), (103, [itemB15])], priorityTree = [(15, [itemB15, itemA])]\<rparr>"


section \<open>The AVL tree and Map models\<close>

lemma findKey_insert: "avl_findKey k' (avl_insert k v t) = (if k' = k then Some v else avl_findKey k' t)"
  by (induction t) (auto simp: avl_findKey_def)

lemma findKey_setValue: "avl_findKey k' (avl_setValue k v t) =
   (if k' = k \<and> avl_findKey k t \<noteq> None then Some v else avl_findKey k' t)"
  by (induction t) (auto simp: avl_findKey_def)

lemma findKey_removeNode: "avl_findKey k' (avl_removeNode k t) = (if k' = k then None else avl_findKey k' t)"
  by (induction t) (auto simp: avl_findKey_def avl_removeNode_def)

lemma findKey_None_iff: "avl_findKey k t = None \<longleftrightarrow> k \<notin> fst ` set t"
  by (simp add: avl_findKey_def map_of_eq_None_iff)

lemma findKey_Some_mem: "avl_findKey k t = Some l \<Longrightarrow> (k, l) \<in> set t"
  by (simp add: avl_findKey_def map_of_SomeD)

lemma mem_findKey: "distinct (map fst t) \<Longrightarrow> (k, l) \<in> set t \<Longrightarrow> avl_findKey k t = Some l"
  by (simp add: avl_findKey_def)

lemma removeNode_notin: "k \<notin> fst ` set t \<Longrightarrow> avl_removeNode k t = t"
  by (induction t) (auto simp: avl_removeNode_def)

lemma set_insert_keys: "fst ` set (avl_insert k v t) = insert k (fst ` set t)"
  by (induction t) auto

lemma sorted_insert: "sorted_wrt (<) (map fst t) \<Longrightarrow> sorted_wrt (<) (map fst (avl_insert k v t))"
  by (induction t) (auto simp: set_insert_keys[simplified] image_iff)

lemma map_fst_setValue: "map fst (avl_setValue k v t) = map fst t"
  by (induction t) auto

lemma sorted_removeNode: "sorted_wrt (<) (map fst t) \<Longrightarrow> sorted_wrt (<) (map fst (avl_removeNode k t))"
  by (induction t) (auto simp: avl_removeNode_def)

lemma sorted_distinct_keys: "sorted_wrt (<) (map fst (t::'a avl)) \<Longrightarrow> distinct (map fst t)"
  using strict_sorted_iff  by (metis distinct_map sorted_wrt_map strict_sorted_iff) 

lemma members_insert: "k \<notin> fst ` set t \<Longrightarrow> mset (members (avl_insert k v t)) = mset v + mset (members t)"
  by (induction t) (auto simp: members_def)

lemma members_split: "distinct (map fst t) \<Longrightarrow> avl_findKey k t = Some l \<Longrightarrow>
   mset (members t) = mset l + mset (members (avl_removeNode k t))"
  by (induction t) (auto simp: members_def avl_findKey_def avl_removeNode_def removeNode_notin[unfolded avl_removeNode_def] image_iff split: if_splits)

lemma members_setValue: "distinct (map fst t) \<Longrightarrow> avl_findKey k t = Some l \<Longrightarrow>
   mset (members (avl_setValue k l' t)) = mset l' + mset (members (avl_removeNode k t))"
  by (induction t) (auto simp: members_def avl_findKey_def avl_removeNode_def removeNode_notin[unfolded avl_removeNode_def] image_iff split: if_splits)


lemma tree_ok_insert: "tree_ok f t \<Longrightarrow> v \<noteq> [] \<Longrightarrow> \<forall>x\<in>set v. f x = k \<Longrightarrow> tree_ok f (avl_insert k v t)"
  unfolding tree_ok_def
proof (induction t)
  case Nil then show ?case by simp
next
  case (Cons n t)
  have ks: "fst ` set (avl_insert k v t) = insert k (fst ` set t)" by (rule set_insert_keys)
  from Cons show ?case by (auto simp: ks[simplified] image_iff)
qed

lemma set_setValue: "set (avl_setValue k v t) \<subseteq> insert (k, v) (set t)"
  by (induction t) auto

lemma tree_ok_setValue: "tree_ok f t \<Longrightarrow> v \<noteq> [] \<Longrightarrow> \<forall>x\<in>set v. f x = k \<Longrightarrow> tree_ok f (avl_setValue k v t)"
  unfolding tree_ok_def using set_setValue[of k v t] by (auto simp: map_fst_setValue)

lemma tree_ok_removeNode: "tree_ok f t \<Longrightarrow> tree_ok f (avl_removeNode k t)"
  unfolding tree_ok_def using sorted_removeNode[of t k] by (auto simp: avl_removeNode_def)

lemma tree_ok_distinct: "tree_ok f t \<Longrightarrow> distinct (map fst t)"
  by (simp add: tree_ok_def sorted_distinct_keys)

lemma tree_ok_findKey: "tree_ok f t \<Longrightarrow> avl_findKey k t = Some l \<Longrightarrow> l \<noteq> [] \<and> (\<forall>x\<in>set l. f x = k)"
  by (auto simp: tree_ok_def dest!: findKey_Some_mem)

lemma member_findKey: "tree_ok f t \<Longrightarrow> x \<in> set (members t) \<Longrightarrow> \<exists>l. avl_findKey (f x) t = Some l \<and> x \<in> set l"
proof -
  assume ok: "tree_ok f t" and "x \<in> set (members t)"
  then obtain n where n: "n \<in> set t" "x \<in> set (snd n)" by (auto simp: members_def)
  with ok have "f x = fst n" by (auto simp: tree_ok_def)
  with n have "(f x, snd n) \<in> set t" by (metis prod.collapse)
  with ok have "avl_findKey (f x) t = Some (snd n)" by (simp add: mem_findKey tree_ok_distinct)
  with n show ?thesis by blast
qed

lemma findKey_member: "avl_findKey k t = Some l \<Longrightarrow> x \<in> set l \<Longrightarrow> x \<in> set (members t)"
  by (auto simp: members_def dest!: findKey_Some_mem intro!: bexI[of _ "(k, l)"])

text \<open>Adding an item to its group (at either end) and removing it again, on one tree.\<close>

lemma tree_add:
  assumes ok: "tree_ok f t" and l': "\<And>l. mset (g l) = {#x#} + mset l" and k: "f x = k"
  defines "t' \<equiv> (case avl_findKey k t of None \<Rightarrow> avl_insert k (g []) t
                 | Some l \<Rightarrow> avl_setValue k (g l) t)"
  shows "tree_ok f t' \<and> mset (members t') = {#x#} + mset (members t)"
proof (cases "avl_findKey k t")
  case None
  have g: "g [] = [x]" using l'[of "[]"] by simp
  have t': "t' = avl_insert k [x] t" using None g by (simp add: t'_def)
  from None have "k \<notin> fst ` set t" by (simp add: findKey_None_iff)
  then show ?thesis unfolding t' using ok k by (simp add: tree_ok_insert members_insert)
next
  case (Some l)
  have t': "t' = avl_setValue k (g l) t" using Some by (simp add: t'_def)
  have "set_mset (mset (g l)) = set_mset ({#x#} + mset l)" using l'[of l] by simp
  then have s: "set (g l) = insert x (set l)" by simp
  have ne: "g l \<noteq> []" using s by auto
  have all: "\<forall>y\<in>set (g l). f y = k" using s k tree_ok_findKey[OF ok Some] by auto
  have d: "distinct (map fst t)" using ok by (rule tree_ok_distinct)
  show ?thesis unfolding t' using ok ne all
    by (simp add: tree_ok_setValue members_setValue[OF d Some] members_split[OF d Some] l')
qed

lemma tree_del:
  assumes ok: "tree_ok f t" and x: "x \<in> set (members t)"
  defines "t' \<equiv> (case avl_findKey (f x) t of None \<Rightarrow> t
                 | Some l \<Rightarrow> if remove1 x l = [] then avl_removeNode (f x) t
                             else avl_setValue (f x) (remove1 x l) t)"
  shows "tree_ok f t' \<and> mset (members t) = {#x#} + mset (members t')"
proof -
  from member_findKey[OF ok x] obtain l where l: "avl_findKey (f x) t = Some l" "x \<in> set l" by blast
  have d: "distinct (map fst t)" using ok by (rule tree_ok_distinct)
  have ml: "mset l = {#x#} + mset (remove1 x l)" using l(2) by simp
  show ?thesis
  proof (cases "remove1 x l = []")
    case True
    then have t': "t' = avl_removeNode (f x) t" using l by (simp add: t'_def)
    show ?thesis unfolding t' using ok ml True by (simp add: tree_ok_removeNode members_split[OF d l(1)])
  next
    case False
    then have t': "t' = avl_setValue (f x) (remove1 x l) t" using l by (simp add: t'_def)
    have all: "\<forall>y\<in>set (remove1 x l). f y = f x" using tree_ok_findKey[OF ok l(1)] by (auto dest: notin_set_remove1)
    show ?thesis unfolding t' using ok False all ml
      by (simp add: tree_ok_setValue members_setValue[OF d l(1)] members_split[OF d l(1)])
  qed
qed


lemma map_get_None_iff: "map_get k m = None \<longleftrightarrow> k \<notin> fst ` set m"
  by (simp add: map_get_def map_of_eq_None_iff)

lemma map_set_absent: "map_get k m = None \<Longrightarrow> map_set k v m = m @ [(k, v)]"
  by (induction m) (auto simp: map_get_def split: if_splits)

lemma map_get_set: "map_get k' (map_set k v m) = (if k' = k then Some v else map_get k' m)"
  by (induction m) (auto simp: map_get_def)

lemma map_get_delete: "map_get k' (map_delete k m) = (if k' = k then None else map_get k' m)"
  by (induction m) (auto simp: map_get_def map_delete_def)

lemma map_get_mem: "map_get k m = Some x \<Longrightarrow> (k, x) \<in> set m"
  by (simp add: map_get_def map_of_SomeD)

lemma mem_map_get: "distinct (map fst m) \<Longrightarrow> (k, x) \<in> set m \<Longrightarrow> map_get k m = Some x"
  by (simp add: map_get_def)

lemma map_delete_notin: "k \<notin> fst ` set m \<Longrightarrow> map_delete k m = m"
  by (induction m) (auto simp: map_delete_def)

lemma map_delete_mset: "distinct (map fst m) \<Longrightarrow> map_get k m = Some x \<Longrightarrow>
  mset (map snd m) = {#x#} + mset (map snd (map_delete k m))"
proof (induction m)
  case Nil
  then show ?case by (simp add: map_get_def)
next
  case (Cons a m)
  show ?case
  proof (cases "fst a = k")
    case True
    with Cons.prems have x: "snd a = x" and "k \<notin> fst ` set m" by (auto simp: map_get_def)
    then have "map_delete k (a # m) = m" using True map_delete_notin[of k m] by (simp add: map_delete_def)
    then show ?thesis using x by simp
  next
    case False
    with Cons.prems have "map_get k m = Some x" "distinct (map fst m)" by (auto simp: map_get_def)
    then have "mset (map snd m) = {#x#} + mset (map snd (map_delete k m))" by (rule Cons.IH[rotated])
    moreover have "map_delete k (a # m) = a # map_delete k m" using False by (simp add: map_delete_def)
    ultimately show ?thesis by simp
  qed
qed

lemma map_delete_distinct: "distinct (map fst m) \<Longrightarrow> distinct (map fst (map_delete k m))"
  by (simp add: map_delete_def distinct_map_filter)

lemma map_delete_subset: "set (map_delete k m) \<subseteq> set m"
  by (auto simp: map_delete_def)

lemma addItem_fields:
  "items (addItem k v p e s) = map_set k \<lparr>key = k, val = v, expTime = e, priority = p\<rparr> (items s)"
  "numItems (addItem k v p e s) = numItems s + 1"
  "maxItems (addItem k v p e s) = maxItems s"
  "mockTime (addItem k v p e s) = mockTime s"
  by (simp_all add: addItem_def Let_def updateExpTreeAndLinkedListForExpTime_def
      updatePriorityTreeAndLinkedListForPriority_def split: option.splits)

lemma addItem_expTree:
  "expTree (addItem k v p e s) =
     (case avl_findKey e (expTree s) of
        None \<Rightarrow> avl_insert e [\<lparr>key = k, val = v, expTime = e, priority = p\<rparr>] (expTree s)
      | Some l \<Rightarrow> avl_setValue e (\<lparr>key = k, val = v, expTime = e, priority = p\<rparr> # l) (expTree s))"
  by (simp add: addItem_def Let_def updateExpTreeAndLinkedListForExpTime_def dll_insertFirst_def
      updatePriorityTreeAndLinkedListForPriority_def split: option.splits)

lemma addItem_priorityTree:
  "priorityTree (addItem k v p e s) =
     (case avl_findKey p (priorityTree s) of
        None \<Rightarrow> avl_insert p [\<lparr>key = k, val = v, expTime = e, priority = p\<rparr>] (priorityTree s)
      | Some l \<Rightarrow> avl_setValue p (l @ [\<lparr>key = k, val = v, expTime = e, priority = p\<rparr>]) (priorityTree s))"
  by (simp add: addItem_def Let_def updateExpTreeAndLinkedListForExpTime_def dll_insertLast_def
      updatePriorityTreeAndLinkedListForPriority_def split: option.splits)

lemma deleteItem_fields:
  "items (deleteItem it s) = map_delete (key it) (items s)"
  "numItems (deleteItem it s) = numItems s - 1"
  "maxItems (deleteItem it s) = maxItems s"
  "mockTime (deleteItem it s) = mockTime s"
  by (simp_all add: deleteItem_def Let_def updateExpTreeAndLinkedListForItemRemoval_def
      updatePriorityTreeAndLinkedListForItemRemoval_def split: option.splits)

lemma deleteItem_expTree:
  "expTree (deleteItem it s) =
     (case avl_findKey (expTime it) (expTree s) of
        None \<Rightarrow> expTree s
      | Some l \<Rightarrow> if remove1 it l = [] then avl_removeNode (expTime it) (expTree s)
                  else avl_setValue (expTime it) (remove1 it l) (expTree s))"
  by (simp add: deleteItem_def Let_def updateExpTreeAndLinkedListForItemRemoval_def
      updatePriorityTreeAndLinkedListForItemRemoval_def dll_remove_def dll_isEmpty_def split: option.splits)

lemma deleteItem_priorityTree:
  "priorityTree (deleteItem it s) =
     (case avl_findKey (priority it) (priorityTree s) of
        None \<Rightarrow> priorityTree s
      | Some l \<Rightarrow> if remove1 it l = [] then avl_removeNode (priority it) (priorityTree s)
                  else avl_setValue (priority it) (remove1 it l) (priorityTree s))"
  by (simp add: deleteItem_def Let_def updateExpTreeAndLinkedListForItemRemoval_def
      updatePriorityTreeAndLinkedListForItemRemoval_def dll_remove_def dll_isEmpty_def split: option.splits)

lemma addItem_inv:
  assumes inv: "cache_inv s" and abs: "map_get k (items s) = None"
  shows "cache_inv (addItem k v p e s)"
proof -
  let ?it = "\<lparr>key = k, val = v, expTime = e, priority = p\<rparr>"
  have oke: "tree_ok expTime (expTree s)" and okp: "tree_ok priority (priorityTree s)"
    using inv by (simp_all add: cache_inv_def)
  have e: "tree_ok expTime (expTree (addItem k v p e s)) \<and>
           mset (members (expTree (addItem k v p e s))) = {#?it#} + mset (members (expTree s))"
    using tree_add[OF oke, of "\<lambda>l. ?it # l" ?it e] by (simp add: addItem_expTree)
  have q: "tree_ok priority (priorityTree (addItem k v p e s)) \<and>
           mset (members (priorityTree (addItem k v p e s))) = {#?it#} + mset (members (priorityTree s))"
    using tree_add[OF okp, of "\<lambda>l. l @ [?it]" ?it p]
    by (cases "avl_findKey p (priorityTree s)") (simp_all add: addItem_priorityTree)
  have k: "k \<notin> fst ` set (items s)" using abs by (simp add: map_get_None_iff)
  show ?thesis using inv e q k
    by (auto simp: cache_inv_def addItem_fields map_set_absent[OF abs])
qed

lemma present_member:
  assumes inv: "cache_inv s" and it: "map_get k (items s) = Some it"
  shows "key it = k" "it \<in> set (members (expTree s))" "it \<in> set (members (priorityTree s))"
proof -
  have m: "(k, it) \<in> set (items s)" using it by (rule map_get_mem)
  then show "key it = k" using inv by (auto simp: cache_inv_def)
  have "it \<in># mset (map snd (items s))" using m by force
  then show "it \<in> set (members (expTree s))" "it \<in> set (members (priorityTree s))"
    using inv by (metis cache_inv_def set_mset_mset)+
qed

lemma deleteItem_inv:
  assumes inv: "cache_inv s" and it: "map_get (key it) (items s) = Some it"
  shows "cache_inv (deleteItem it s)"
proof -
  note mem = present_member[OF inv it]
  have oke: "tree_ok expTime (expTree s)" and okp: "tree_ok priority (priorityTree s)"
    using inv by (simp_all add: cache_inv_def)
  have e: "tree_ok expTime (expTree (deleteItem it s)) \<and>
           mset (members (expTree s)) = {#it#} + mset (members (expTree (deleteItem it s)))"
    using tree_del[OF oke mem(2)] by (simp add: deleteItem_expTree)
  have q: "tree_ok priority (priorityTree (deleteItem it s)) \<and>
           mset (members (priorityTree s)) = {#it#} + mset (members (priorityTree (deleteItem it s)))"
    using tree_del[OF okp mem(3)] by (simp add: deleteItem_priorityTree)
  have d: "distinct (map fst (items s))" using inv by (simp add: cache_inv_def)
  have i: "mset (map snd (items s)) = {#it#} + mset (map snd (map_delete (key it) (items s)))"
    using map_delete_mset[OF d it] .
  have len: "length (items s) = Suc (length (map_delete (key it) (items s)))"
    using arg_cong[OF i, of size] by simp
  have ee: "mset (members (expTree (deleteItem it s))) = mset (map snd (map_delete (key it) (items s)))"
    using e i inv by (simp add: cache_inv_def)
  have qq: "mset (members (priorityTree (deleteItem it s))) = mset (map snd (map_delete (key it) (items s)))"
    using q i inv by (simp add: cache_inv_def)
  show ?thesis using inv e q ee qq len map_delete_subset[of "key it" "items s"]
    by (auto simp: cache_inv_def deleteItem_fields map_delete_distinct)
qed


lemma tree_reorder:
  assumes ok: "tree_ok f t" and l: "avl_findKey k t = Some l" and m: "mset l' = mset l"
  shows "tree_ok f (avl_setValue k l' t) \<and> mset (members (avl_setValue k l' t)) = mset (members t)"
proof -
  have d: "distinct (map fst t)" using ok by (rule tree_ok_distinct)
  have s: "set l' = set l" using m by (rule mset_eq_setD)
  have ne: "l' \<noteq> []" using s tree_ok_findKey[OF ok l] by auto
  have all: "\<forall>y\<in>set l'. f y = k" using s tree_ok_findKey[OF ok l] by auto
  show ?thesis using ok ne all m
    by (simp add: tree_ok_setValue members_setValue[OF d l] members_split[OF d l])
qed

lemma member_present:
  assumes inv: "cache_inv s"
    and it: "it \<in> set (members (expTree s)) \<or> it \<in> set (members (priorityTree s))"
  shows "map_get (key it) (items s) = Some it"
proof -
  have "it \<in># mset (map snd (items s))" using inv it by (metis cache_inv_def set_mset_mset)
  then obtain k where k: "(k, it) \<in> set (items s)" by auto
  then have "key it = k" using inv by (auto simp: cache_inv_def)
  then show ?thesis using inv k by (simp add: cache_inv_def mem_map_get)
qed

lemma get_fields:
  "items (snd (get s k)) = items s" "numItems (snd (get s k)) = numItems s"
  "maxItems (snd (get s k)) = maxItems s" "mockTime (snd (get s k)) = mockTime s"
  "expTree (snd (get s k)) = expTree s"
  by (simp_all add: get_def split: option.splits)

lemma get_hit:
  assumes inv: "cache_inv s" and it: "map_get k (items s) = Some it" and un: "expTime it > mockTime s"
  shows "\<exists>l. avl_findKey (priority it) (priorityTree s) = Some l \<and> it \<in> set l \<and>
     get s k = (Some (val it),
       s\<lparr>priorityTree := avl_setValue (priority it) (remove1 it l @ [it]) (priorityTree s)\<rparr>)"
proof -
  have okp: "tree_ok priority (priorityTree s)" using inv by (simp add: cache_inv_def)
  from member_findKey[OF okp present_member(3)[OF inv it]]
  obtain l where l: "avl_findKey (priority it) (priorityTree s) = Some l" "it \<in> set l" by blast
  then show ?thesis using it un by (simp add: get_def dll_insertLast_def dll_remove_def)
qed

lemma get_inv:
  assumes inv: "cache_inv s"
  shows "cache_inv (snd (get s k))"
proof (cases "\<exists>it. map_get k (items s) = Some it \<and> expTime it > mockTime s")
  case True
  then obtain it where it: "map_get k (items s) = Some it" "expTime it > mockTime s" by blast
  from get_hit[OF inv it] obtain l where l: "avl_findKey (priority it) (priorityTree s) = Some l"
    "it \<in> set l" "priorityTree (snd (get s k)) = avl_setValue (priority it) (remove1 it l @ [it]) (priorityTree s)"
    by auto
  have okp: "tree_ok priority (priorityTree s)" using inv by (simp add: cache_inv_def)
  have "mset (remove1 it l @ [it]) = mset l" using l(2) by simp
  from tree_reorder[OF okp l(1) this] show ?thesis using inv l(3)
    by (simp add: cache_inv_def get_fields)
next
  case False
  then have "snd (get s k) = s" by (auto simp: get_def split: option.splits)
  then show ?thesis using inv by simp
qed

lemma avl_min_least:
  assumes ok: "tree_ok f t" and m: "avl_min t = Some (k, l)" and n: "avl_findKey k' t = Some l'"
  shows "k \<le> k'"
proof -
  from m obtain t' where t: "t = (k, l) # t'" by (auto simp: avl_min_def split: list.splits)
  from findKey_Some_mem[OF n] have "(k', l') \<in> set t" .
  then show ?thesis using ok unfolding t tree_ok_def by force
qed

lemma avl_min_head:
  assumes ok: "tree_ok f t" and ne: "t \<noteq> []"
  shows "\<exists>k l x. avl_min t = Some (k, l) \<and> avl_findKey k t = Some l \<and> dll_head l = Some x \<and> x \<in> set l \<and> f x = k"
proof -
  from ne obtain k l t' where t: "t = (k, l) # t'" by (cases t) auto
  with ok have "l \<noteq> []" "\<forall>x\<in>set l. f x = k" by (auto simp: tree_ok_def)
  then obtain x l0 where "l = x # l0" "f x = k" by (cases l) auto
  then show ?thesis unfolding t by (simp add: avl_min_def dll_head_def avl_findKey_def)
qed

lemma nonempty_trees:
  assumes inv: "cache_inv s" and ne: "items s \<noteq> []"
  shows "expTree s \<noteq> []" "priorityTree s \<noteq> []"
proof -
  have "mset (map snd (items s)) \<noteq> {#}" using ne by simp
  then have "mset (members (expTree s)) \<noteq> {#}" "mset (members (priorityTree s)) \<noteq> {#}"
    using inv by (simp_all add: cache_inv_def)
  then show "expTree s \<noteq> []" "priorityTree s \<noteq> []" by (auto simp: members_def)
qed

lemma empty_trees:
  assumes inv: "cache_inv s" and e: "items s = []"
  shows "expTree s = []" "priorityTree s = []"
proof -
  have m: "members (expTree s) = []" "members (priorityTree s) = []"
    using inv e by (simp_all add: cache_inv_def)
  have "\<And>f (t :: 'a item list avl). tree_ok f t \<Longrightarrow> members t = [] \<Longrightarrow> t = []"
    by (case_tac t) (auto simp: members_def tree_ok_def)
  then show "expTree s = []" "priorityTree s = []" using inv m by (auto simp: cache_inv_def)
qed


lemma set_op_update:
  "map_get k (items s) = Some it \<Longrightarrow> set_op s k v p e = Inr (addItem k v p e (deleteItem it s))"
  by (simp add: set_op_def)

lemma set_op_room:
  "map_get k (items s) = None \<Longrightarrow> numItems s < maxItems s \<Longrightarrow> set_op s k v p e = Inr (addItem k v p e s)"
  by (simp add: set_op_def)

lemma set_op_empty:
  assumes inv: "cache_inv s" and e: "items s = []"
  shows "set_op s k v p e = Inr (addItem k v p e s)"
  using empty_trees[OF inv e] e by (simp add: set_op_def map_get_def avl_min_def)

lemma set_op_evict_expired:
  assumes inv: "cache_inv s" and abs: "map_get k (items s) = None" and full: "numItems s \<ge> maxItems s"
    and x: "map_get kx (items s) = Some x" and ex: "expTime x \<le> mockTime s"
  shows "\<exists>t l it. avl_min (expTree s) = Some (t, l) \<and> dll_head l = Some it \<and> expTime it = t \<and>
      t \<le> mockTime s \<and> map_get (key it) (items s) = Some it \<and>
      set_op s k v p e = Inr (addItem k v p e (deleteItem it s))"
proof -
  have oke: "tree_ok expTime (expTree s)" using inv by (simp add: cache_inv_def)
  from member_findKey[OF oke present_member(2)[OF inv x]]
  obtain lx where lx: "avl_findKey (expTime x) (expTree s) = Some lx" by blast
  then have ne: "expTree s \<noteq> []" by (auto simp: avl_findKey_def)
  from avl_min_head[OF oke ne] obtain t l it where
    m: "avl_min (expTree s) = Some (t, l)" "avl_findKey t (expTree s) = Some l"
       "dll_head l = Some it" "it \<in> set l" "expTime it = t" by blast
  have le: "t \<le> mockTime s" using avl_min_least[OF oke m(1) lx] ex by simp
  have pr: "map_get (key it) (items s) = Some it"
    using member_present[OF inv] findKey_member[OF m(2) m(4)] by blast
  have "set_op s k v p e = Inr (addItem k v p e (deleteItem it s))"
    using abs full m le by (simp add: set_op_def)
  then show ?thesis using m le pr by blast
qed

lemma set_op_evict_priority:
  assumes inv: "cache_inv s" and abs: "map_get k (items s) = None" and full: "numItems s \<ge> maxItems s"
    and ne: "items s \<noteq> []" and un: "\<forall>x \<in> snd ` set (items s). expTime x > mockTime s"
  shows "\<exists>q l it. avl_min (priorityTree s) = Some (q, l) \<and> avl_findKey q (priorityTree s) = Some l \<and>
      dll_head l = Some it \<and> priority it = q \<and>
      map_get (key it) (items s) = Some it \<and> (\<forall>x \<in> snd ` set (items s). q \<le> priority x) \<and>
      set_op s k v p e = Inr (addItem k v p e (deleteItem it s))"
proof -
  have oke: "tree_ok expTime (expTree s)" and okp: "tree_ok priority (priorityTree s)"
    using inv by (simp_all add: cache_inv_def)
  note nes = nonempty_trees[OF inv ne]
  from avl_min_head[OF oke nes(1)] obtain t l0 y where
    e: "avl_min (expTree s) = Some (t, l0)" "avl_findKey t (expTree s) = Some l0" "y \<in> set l0" "expTime y = t"
    by blast
  have "map_get (key y) (items s) = Some y"
    using member_present[OF inv] findKey_member[OF e(2) e(3)] by blast
  then have "y \<in> snd ` set (items s)" by (force dest: map_get_mem)
  then have gt: "\<not> t \<le> mockTime s" using un e(4) by auto
  from avl_min_head[OF okp nes(2)] obtain q l it where
    m: "avl_min (priorityTree s) = Some (q, l)" "avl_findKey q (priorityTree s) = Some l"
       "dll_head l = Some it" "it \<in> set l" "priority it = q" by blast
  have pr: "map_get (key it) (items s) = Some it"
    using member_present[OF inv] findKey_member[OF m(2) m(4)] by blast
  have least: "\<forall>x \<in> snd ` set (items s). q \<le> priority x"
  proof
    fix x assume "x \<in> snd ` set (items s)"
    then have "x \<in># mset (map snd (items s))" by simp
    then have "x \<in> set (members (priorityTree s))" using inv by (metis cache_inv_def set_mset_mset)
    from member_findKey[OF okp this] obtain lx where "avl_findKey (priority x) (priorityTree s) = Some lx" by blast
    from avl_min_least[OF okp m(1) this] show "q \<le> priority x" .
  qed
  have "set_op s k v p e = Inr (addItem k v p e (deleteItem it s))"
    using abs full e(1) gt m by (simp add: set_op_def)
  then show ?thesis using m pr least by blast
qed

lemma set_op_shape:
  assumes inv: "cache_inv s"
  shows "set_op s k v p e = Inr (addItem k v p e s) \<and> map_get k (items s) = None \<and>
           (numItems s < maxItems s \<or> items s = []) \<or>
         (\<exists>it. set_op s k v p e = Inr (addItem k v p e (deleteItem it s)) \<and>
            map_get (key it) (items s) = Some it \<and>
            (key it = k \<or> map_get k (items s) = None \<and> numItems s \<ge> maxItems s))"
proof (cases "map_get k (items s)")
  case (Some it)
  then have "key it = k" using present_member(1)[OF inv] by blast
  then show ?thesis using Some set_op_update[OF Some] by auto
next
  case None
  show ?thesis
  proof (cases "numItems s < maxItems s \<or> items s = []")
    case True
    then show ?thesis using None set_op_room[OF None] set_op_empty[OF inv] by blast
  next
    case False
    then have full: "numItems s \<ge> maxItems s" and ne: "items s \<noteq> []" by auto
    show ?thesis
    proof (cases "\<forall>x \<in> snd ` set (items s). expTime x > mockTime s")
      case True
      from set_op_evict_priority[OF inv None full ne True, of v p e] show ?thesis using full None by blast
    next
      case False
      then obtain kx x where "(kx, x) \<in> set (items s)" "expTime x \<le> mockTime s" by force
      then have "map_get kx (items s) = Some x" "expTime x \<le> mockTime s"
        using inv by (simp_all add: cache_inv_def mem_map_get)
      from set_op_evict_expired[OF inv None full this, of v p e] show ?thesis using full None by blast
    qed
  qed
qed

lemma set_op_inv:
  assumes inv: "cache_inv s"
  shows "\<exists>s'. set_op s k v p e = Inr s' \<and> cache_inv s'"
proof -
  consider (add) "set_op s k v p e = Inr (addItem k v p e s)" "map_get k (items s) = None"
    | (del) it where "set_op s k v p e = Inr (addItem k v p e (deleteItem it s))"
        "map_get (key it) (items s) = Some it" "key it = k \<or> map_get k (items s) = None"
    using set_op_shape[OF inv, of k v p e] by (elim disjE conjE exE) auto
  then show ?thesis
  proof cases
    case add
    then show ?thesis using addItem_inv[OF inv] by simp
  next
    case del
    have "map_get k (items (deleteItem it s)) = None"
      using del(3) by (auto simp: deleteItem_fields map_get_delete)
    from addItem_inv[OF deleteItem_inv[OF inv del(2)] this] show ?thesis using del(1) by simp
  qed
qed

lemma new_cache_inv: "cache_inv (new_cache n)"
  by (simp add: cache_inv_def new_cache_def tree_ok_def members_def)

lemma setMockTime_inv: "cache_inv s \<Longrightarrow> cache_inv (setMockTime t s)"
  by (simp add: cache_inv_def setMockTime_def)

lemma step_inv:
  assumes inv: "cache_inv s"
  shows "\<exists>s'. step c s = Inr s' \<and> cache_inv s'"
proof (cases c)
  case (Get k) then show ?thesis using get_inv[OF inv] by simp
next
  case (Set k v p e) then show ?thesis using set_op_inv[OF inv] by simp
next
  case (SetMockTime t) then show ?thesis using setMockTime_inv[OF inv] by simp
qed

lemma run_inv: "cache_inv s \<Longrightarrow> \<exists>s'. run s cs = Inr s' \<and> cache_inv s'"
proof (induction cs arbitrary: s)
  case Nil then show ?case by simp
next
  case (Cons c cs)
  from step_inv[OF Cons.prems, of c] obtain s1 where s1: "step c s = Inr s1" "cache_inv s1" by blast
  from Cons.IH[OF s1(2)] show ?case using s1(1) by simp
qed

lemma reachable_inv: "run (new_cache n) cs = Inr s \<Longrightarrow> cache_inv s"
  using run_inv[OF new_cache_inv, of n cs] by auto

lemma member_iff:
  assumes inv: "cache_inv s"
  shows "x \<in> set (members (expTree s)) \<longleftrightarrow> map_get (key x) (items s) = Some x"
    "x \<in> set (members (priorityTree s)) \<longleftrightarrow> map_get (key x) (items s) = Some x"
  using member_present[OF inv, of x] present_member(2,3)[OF inv, of "key x" x] by blast+

lemma present_iff:
  assumes inv: "cache_inv s"
  shows "x \<in> snd ` set (items s) \<longleftrightarrow> map_get (key x) (items s) = Some x"
proof
  assume "x \<in> snd ` set (items s)"
  then have "x \<in># mset (map snd (items s))" by simp
  then have "x \<in> set (members (expTree s))" using inv by (metis cache_inv_def set_mset_mset)
  then show "map_get (key x) (items s) = Some x" using member_iff(1)[OF inv] by blast
next
  assume "map_get (key x) (items s) = Some x"
  then show "x \<in> snd ` set (items s)" by (force dest: map_get_mem)
qed

lemma items_distinct:
  assumes inv: "cache_inv s"
  shows "distinct (map snd (items s))"
proof -
  have "inj_on snd (set (items s))"
  proof (rule inj_onI)
    fix a b assume "a \<in> set (items s)" "b \<in> set (items s)" "snd a = snd b"
    moreover have "\<forall>p \<in> set (items s). key (snd p) = fst p" using inv by (simp add: cache_inv_def)
    ultimately have "fst a = fst b" by metis
    then show "a = b" using \<open>snd a = snd b\<close> by (simp add: prod_eq_iff)
  qed
  moreover have "distinct (items s)" using inv by (simp add: cache_inv_def distinct_map)
  ultimately show ?thesis by (simp add: distinct_map)
qed

lemma members_distinct:
  assumes inv: "cache_inv s"
  shows "distinct (members (expTree s))" "distinct (members (priorityTree s))"
  using items_distinct[OF inv] inv by (metis cache_inv_def mset_eq_imp_distinct_iff)+

lemma group_distinct: "distinct (members t) \<Longrightarrow> avl_findKey k t = Some l \<Longrightarrow> distinct l"
  by (induction t) (auto simp: members_def avl_findKey_def split: if_splits)

lemma replace_lookup:
  "map_get k' (items (addItem k v p e (deleteItem it s))) =
     (if k' = k then Some \<lparr>key = k, val = v, expTime = e, priority = p\<rparr>
      else if k' = key it then None else map_get k' (items s))"
  by (simp add: addItem_fields deleteItem_fields map_get_set map_get_delete)

lemma findKey_addItem_priority:
  "avl_findKey q (priorityTree (addItem k v p e s)) =
     (if q = p then Some ((case avl_findKey p (priorityTree s) of None \<Rightarrow> [] | Some l \<Rightarrow> l)
                          @ [\<lparr>key = k, val = v, expTime = e, priority = p\<rparr>])
      else avl_findKey q (priorityTree s))"
  by (simp add: addItem_priorityTree findKey_insert findKey_setValue split: option.splits)

subsection \<open>The recency order is kept\<close>

lemma filter_remove1_other: "\<not> P x \<Longrightarrow> filter P (remove1 x r) = filter P r"
  by (induction r) auto

lemma lru_inv_set: "lru_inv s r \<Longrightarrow> set r = snd ` set (items s)"
  unfolding lru_inv_def by (metis mset_eq_setD set_map)

lemma lru_delete:
  assumes inv: "cache_inv s" and lru: "lru_inv s r" and it: "map_get (key it) (items s) = Some it"
  shows "lru_inv (deleteItem it s) (remove1 it r)"
proof -
  have okp: "tree_ok priority (priorityTree s)" using inv by (simp add: cache_inv_def)
  from member_findKey[OF okp present_member(3)[OF inv it]]
  obtain l0 where l0: "avl_findKey (priority it) (priorityTree s) = Some l0" "it \<in> set l0" by blast
  have d: "distinct (map fst (items s))" using inv by (simp add: cache_inv_def)
  have "mset (map snd (items s)) = {#it#} + mset (map snd (map_delete (key it) (items s)))"
    using map_delete_mset[OF d it] .
  then have m: "mset (remove1 it r) = mset (map snd (items (deleteItem it s)))"
    using lru by (simp add: lru_inv_def deleteItem_fields)
  have g: "\<forall>q l. avl_findKey q (priorityTree (deleteItem it s)) = Some l \<longrightarrow>
             l = filter (\<lambda>x. priority x = q) (remove1 it r)"
  proof (intro allI impI)
    fix q l assume a: "avl_findKey q (priorityTree (deleteItem it s)) = Some l"
    show "l = filter (\<lambda>x. priority x = q) (remove1 it r)"
    proof (cases "q = priority it")
      case True
      then have "l = remove1 it l0" using a l0
        by (auto simp: deleteItem_priorityTree findKey_removeNode findKey_setValue split: if_splits)
      moreover have "l0 = filter (\<lambda>x. priority x = q) r" using lru l0 True by (simp add: lru_inv_def)
      ultimately show ?thesis by (simp add: filter_remove1)
    next
      case False
      then have "avl_findKey q (priorityTree s) = Some l" using a l0
        by (auto simp: deleteItem_priorityTree findKey_removeNode findKey_setValue split: if_splits)
      then have "l = filter (\<lambda>x. priority x = q) r" using lru by (simp add: lru_inv_def)
      then show ?thesis using False by (simp add: filter_remove1_other)
    qed
  qed
  show ?thesis using m g by (simp add: lru_inv_def)
qed

lemma lru_add:
  assumes inv: "cache_inv s" and lru: "lru_inv s r" and abs: "map_get k (items s) = None"
  shows "lru_inv (addItem k v p e s) (r @ [\<lparr>key = k, val = v, expTime = e, priority = p\<rparr>])"
proof -
  let ?new = "\<lparr>key = k, val = v, expTime = e, priority = p\<rparr>"
  have okp: "tree_ok priority (priorityTree s)" using inv by (simp add: cache_inv_def)
  have m: "mset (r @ [?new]) = mset (map snd (items (addItem k v p e s)))"
    using lru by (simp add: lru_inv_def addItem_fields map_set_absent[OF abs])
  have none: "avl_findKey p (priorityTree s) = None \<Longrightarrow> filter (\<lambda>x. priority x = p) r = []"
  proof -
    assume n: "avl_findKey p (priorityTree s) = None"
    have "\<forall>x \<in> set r. priority x \<noteq> p"
    proof
      fix x assume "x \<in> set r"
      then have "x \<in> snd ` set (items s)" using lru_inv_set[OF lru] by simp
      then have "x \<in> set (members (priorityTree s))" using present_iff[OF inv] member_iff(2)[OF inv] by blast
      from member_findKey[OF okp this] show "priority x \<noteq> p" using n by auto
    qed
    then show ?thesis by (simp add: filter_empty_conv)
  qed
  have g: "\<forall>q l. avl_findKey q (priorityTree (addItem k v p e s)) = Some l \<longrightarrow>
             l = filter (\<lambda>x. priority x = q) (r @ [?new])"
  proof (intro allI impI)
    fix q l assume a: "avl_findKey q (priorityTree (addItem k v p e s)) = Some l"
    show "l = filter (\<lambda>x. priority x = q) (r @ [?new])"
    proof (cases "q = p")
      case True
      show ?thesis
      proof (cases "avl_findKey p (priorityTree s)")
        case None
        then have "l = [?new]" using a True by (simp add: findKey_addItem_priority)
        then show ?thesis using True none[OF None] by simp
      next
        case (Some l1)
        then have "l1 = filter (\<lambda>x. priority x = p) r" using lru by (simp add: lru_inv_def)
        then show ?thesis using a True Some by (simp add: findKey_addItem_priority)
      qed
    next
      case False
      then have "avl_findKey q (priorityTree s) = Some l" using a by (simp add: findKey_addItem_priority)
      then have "l = filter (\<lambda>x. priority x = q) r" using lru by (simp add: lru_inv_def)
      then show ?thesis using False by simp
    qed
  qed
  show ?thesis using m g by (simp add: lru_inv_def)
qed

lemma lru_get:
  assumes inv: "cache_inv s" and lru: "lru_inv s r"
  shows "lru_inv (snd (get s k)) (touch (Get k) s s' r)"
proof (cases "\<exists>it. map_get k (items s) = Some it \<and> expTime it > mockTime s")
  case True
  then obtain it where it: "map_get k (items s) = Some it" "expTime it > mockTime s" by blast
  from get_hit[OF inv it] obtain l0 where l0: "avl_findKey (priority it) (priorityTree s) = Some l0"
    "it \<in> set l0" "get s k = (Some (val it),
       s\<lparr>priorityTree := avl_setValue (priority it) (remove1 it l0 @ [it]) (priorityTree s)\<rparr>)"
    by blast
  have t: "touch (Get k) s s' r = remove1 it r @ [it]" using it l0(3) by simp
  have "it \<in> set r" using lru_inv_set[OF lru] it(1) by (force dest: map_get_mem)
  then have "mset (remove1 it r @ [it]) = mset r" by simp
  then have m: "mset (remove1 it r @ [it]) = mset (map snd (items s))" using lru by (simp only: lru_inv_def)
  have g: "\<forall>q l. avl_findKey q (avl_setValue (priority it) (remove1 it l0 @ [it]) (priorityTree s)) = Some l \<longrightarrow>
             l = filter (\<lambda>x. priority x = q) (remove1 it r @ [it])"
  proof (intro allI impI)
    fix q l assume a: "avl_findKey q (avl_setValue (priority it) (remove1 it l0 @ [it]) (priorityTree s)) = Some l"
    show "l = filter (\<lambda>x. priority x = q) (remove1 it r @ [it])"
    proof (cases "q = priority it")
      case True
      then have "l = remove1 it l0 @ [it]" using a l0 by (simp add: findKey_setValue)
      moreover have "l0 = filter (\<lambda>x. priority x = q) r" using lru l0 True by (simp add: lru_inv_def)
      ultimately show ?thesis using True by (simp add: filter_remove1)
    next
      case False
      then have "avl_findKey q (priorityTree s) = Some l" using a by (simp add: findKey_setValue)
      then have "l = filter (\<lambda>x. priority x = q) r" using lru by (simp add: lru_inv_def)
      then show ?thesis using False by (simp add: filter_remove1_other)
    qed
  qed
  show ?thesis unfolding t using m g l0(3) by (simp add: lru_inv_def)
next
  case False
  then have "snd (get s k) = s" "touch (Get k) s s' r = r"
    by (auto simp: get_def split: option.splits)
  then show ?thesis using lru by simp
qed

lemma lru_set:
  assumes inv: "cache_inv s" and lru: "lru_inv s r" and st: "set_op s k v p e = Inr s'"
  shows "lru_inv s' (touch (Set k v p e) s s' r)"
proof -
  let ?new = "\<lparr>key = k, val = v, expTime = e, priority = p\<rparr>"
  have pr: "\<forall>x \<in> set r. map_get (key x) (items s) = Some x"
    using lru_inv_set[OF lru] present_iff[OF inv] by blast
  consider (add) "s' = addItem k v p e s" "map_get k (items s) = None"
    | (del) it where "s' = addItem k v p e (deleteItem it s)"
        "map_get (key it) (items s) = Some it" "key it = k \<or> map_get k (items s) = None"
    using set_op_shape[OF inv, of k v p e] st by (elim disjE conjE exE) auto
  then show ?thesis
  proof cases
    case add
    have "\<forall>x \<in> set r. key x \<noteq> k \<and> map_get (key x) (items s') = Some x"
      using pr add by (auto simp: addItem_fields map_get_set)
    then have f: "filter (\<lambda>x. key x \<noteq> k \<and> map_get (key x) (items s') = Some x) r = r"
      by (simp add: filter_id_conv)
    have "touch (Set k v p e) s s' r = r @ [?new]"
      using f by (simp add: add(1) addItem_fields map_get_set)
    then show ?thesis using lru_add[OF inv lru add(2)] add(1) by simp
  next
    case del
    have "distinct r" using lru items_distinct[OF inv] by (metis lru_inv_def mset_eq_imp_distinct_iff)
    then have r1: "remove1 it r = filter (\<lambda>x. x \<noteq> it) r"
      by (simp add: distinct_remove1_removeAll removeAll_filter_not_eq) metis
    have "\<forall>x \<in> set r. (key x \<noteq> k \<and> map_get (key x) (items s') = Some x) \<longleftrightarrow> x \<noteq> it"
    proof
      fix x assume "x \<in> set r"
      then have x: "map_get (key x) (items s) = Some x" using pr by simp
      have e: "key x = key it \<longleftrightarrow> x = it" using x del(2) by (metis option.inject)
      have nk: "key x = k \<longrightarrow> key it = k" using x del(3) by (metis option.distinct(1))
      have "map_get (key x) (items s') =
          (if key x = k then Some ?new else if key x = key it then None else Some x)"
        unfolding del(1) using x by (simp add: replace_lookup)
      then show "(key x \<noteq> k \<and> map_get (key x) (items s') = Some x) \<longleftrightarrow> x \<noteq> it"
        using e nk by (cases "key x = k"; cases "key x = key it"; simp)
    qed
    then have f: "filter (\<lambda>x. key x \<noteq> k \<and> map_get (key x) (items s') = Some x) r = remove1 it r"
      unfolding r1 by (auto intro: filter_cong)
    have t: "touch (Set k v p e) s s' r = remove1 it r @ [?new]"
      using f by (simp add: del(1) replace_lookup)
    have abs: "map_get k (items (deleteItem it s)) = None"
      using del(3) by (auto simp: deleteItem_fields map_get_delete)
    have "lru_inv (addItem k v p e (deleteItem it s)) (remove1 it r @ [?new])"
      using lru_add[OF deleteItem_inv[OF inv del(2)] lru_delete[OF inv lru del(2)] abs] .
    then show ?thesis using t del(1) by simp
  qed
qed

lemma lru_run:
  assumes "cache_inv s" and "lru_inv s r" and "run s cs = Inr s'"
  shows "lru_inv s' (recency s r cs)"
  using assms
proof (induction cs arbitrary: s r)
  case Nil then show ?case by simp
next
  case (Cons c cs)
  from step_inv[OF Cons.prems(1), of c] obtain s1 where s1: "step c s = Inr s1" "cache_inv s1" by blast
  have "lru_inv s1 (touch c s s1 r)"
  proof (cases c)
    case (Get k) then show ?thesis using lru_get[OF Cons.prems(1,2), of k s1] s1(1) by simp
  next
    case (Set k v p e) then show ?thesis using lru_set[OF Cons.prems(1,2), of k v p e s1] s1(1) by simp
  next
    case (SetMockTime t) then show ?thesis using Cons.prems(2) s1(1) by (auto simp: lru_inv_def setMockTime_def)
  qed
  from Cons.IH[OF s1(2) this] show ?case using Cons.prems(3) s1(1) by simp
qed

lemma find_filter_head: "filter P r = x # xs \<Longrightarrow> find P r = Some x"
  by (induction r) (auto split: if_splits)


section \<open>Properties of the cache\<close>

lemma cache_expired_run: "run (new_cache 2) calls_expired = Inr cache_expired"
  by code_simp

lemma cache_full_run: "run (new_cache 2) calls_full = Inr cache_full"
  by code_simp

lemma cache_lru_run: "run (new_cache 2) calls_lru = Inr cache_lru"
  by code_simp

lemma run_invariant:
  assumes "P s" and st: "\<And>c s s'. P s \<Longrightarrow> step c s = Inr s' \<Longrightarrow> P s'" and "run s cs = Inr s'"
  shows "P s'"
  using assms(1,3)
proof (induction cs arbitrary: s)
  case Nil then show ?case by simp
next
  case (Cons c cs)
  then show ?case using st by (auto split: sum.splits)
qed

lemma total_members_length: "total_members t = length (members t)"
  by (simp add: total_members_def members_def length_concat comp_def)

text \<open>The capacity bound is kept by every call when maxItems is at least 1.\<close>

lemma capacity_step:
  assumes P: "cache_inv s \<and> 1 \<le> maxItems s \<and> numItems s \<le> maxItems s" and st: "step c s = Inr s'"
  shows "cache_inv s' \<and> 1 \<le> maxItems s' \<and> numItems s' \<le> maxItems s' \<and> maxItems s' = maxItems s"
proof -
  have inv: "cache_inv s" using P by simp
  have inv': "cache_inv s'" using step_inv[OF inv, of c] st by simp
  have "numItems s' \<le> maxItems s \<and> maxItems s' = maxItems s"
  proof (cases c)
    case (Get k) then show ?thesis using st P by (auto simp: get_fields)
  next
    case (SetMockTime t) then show ?thesis using st P by (auto simp: setMockTime_def)
  next
    case (Set k v p e)
    have z: "items s = [] \<Longrightarrow> numItems s = 0" using inv by (simp add: cache_inv_def)
    from set_op_shape[OF inv, of k v p e] show ?thesis using st P z unfolding Set
      by (auto simp: addItem_fields deleteItem_fields)
  qed
  then show ?thesis using inv' P by simp
qed

text \<open>
  Claim C1. In a cache reached from a fresh one, when set is called with a key
  that is not present while numItems is at least maxItems, and some present
  entry has expTime at most mockTime, then set removes a present entry whose
  expTime is at most mockTime, whatever the priorities and list positions are,
  inserts the new entry, and keeps every other entry.
\<close>

theorem expired_entry_evicted_first:
  assumes "run (new_cache n) cs = Inr s" and "map_get k (items s) = None"
    and "numItems s \<ge> maxItems s" and "map_get kx (items s) = Some x" and "expTime x \<le> mockTime s"
  shows "\<exists>it. map_get (key it) (items s) = Some it \<and> expTime it \<le> mockTime s \<and>
      set_op s k v p e = Inr (addItem k v p e (deleteItem it s)) \<and>
      map_get (key it) (items (addItem k v p e (deleteItem it s))) = None \<and>
      (\<forall>k'. k' \<noteq> k \<and> k' \<noteq> key it \<longrightarrow>
         map_get k' (items (addItem k v p e (deleteItem it s))) = map_get k' (items s))"
proof -
  have inv: "cache_inv s" using assms(1) by (rule reachable_inv)
  from set_op_evict_expired[OF inv assms(2-5), of v p e] obtain it where
    it: "map_get (key it) (items s) = Some it" "expTime it \<le> mockTime s"
        "set_op s k v p e = Inr (addItem k v p e (deleteItem it s))" by blast
  have "key it \<noteq> k" using it(1) assms(2) by auto
  then show ?thesis using it by (auto simp: replace_lookup)
qed

theorem expired_entry_evicted_first_witness:
  "run (new_cache 2) calls_expired = Inr cache_expired \<and>
   map_get ''C'' (items cache_expired) = None \<and>
   numItems cache_expired \<ge> maxItems cache_expired \<and>
   map_get ''A'' (items cache_expired) = Some itemA \<and>
   expTime itemA \<le> mockTime cache_expired \<and>
   (\<exists>it. map_get (key it) (items cache_expired) = Some it \<and>
      expTime it \<le> mockTime cache_expired \<and>
      set_op cache_expired ''C'' 3 5 110 = Inr (addItem ''C'' 3 5 110 (deleteItem it cache_expired)) \<and>
      map_get (key it) (items (addItem ''C'' 3 5 110 (deleteItem it cache_expired))) = None \<and>
      (\<forall>k'. k' \<noteq> ''C'' \<and> k' \<noteq> key it \<longrightarrow>
         map_get k' (items (addItem ''C'' 3 5 110 (deleteItem it cache_expired))) =
         map_get k' (items cache_expired)))"
proof -
  have h2: "map_get ''C'' (items cache_expired) = None" by code_simp
  have h3: "numItems cache_expired \<ge> maxItems cache_expired" by code_simp
  have h4: "map_get ''A'' (items cache_expired) = Some itemA" by code_simp
  have h5: "expTime itemA \<le> mockTime cache_expired" by code_simp
  from expired_entry_evicted_first[OF cache_expired_run h2 h3 h4 h5, where v = 3 and p = 5 and e = 110]
    cache_expired_run h2 h3 h4 h5
  show ?thesis by blast
qed

text \<open>
  Claim C2. In a cache reached from a fresh one by the calls cs, when set is
  called with a key that is not present while numItems is at least maxItems,
  the cache is not empty and no present entry has expTime at most mockTime,
  then set removes a present entry \<open>it\<close> such that: no present entry has a
  smaller priority; \<open>it\<close> is the head of the list of its priority, and that
  list is the recency order of the calls restricted to that priority, so
  \<open>it\<close> is, among the entries of the lowest priority, the one least recently
  touched by a get or an insertion; the recency order lists exactly the
  present entries. (An empty cache has no entry to remove.)
\<close>

theorem lowest_priority_lru_evicted:
  assumes "run (new_cache n) cs = Inr s" and "map_get k (items s) = None"
    and "numItems s \<ge> maxItems s" and "items s \<noteq> []"
    and "\<forall>x \<in> snd ` set (items s). expTime x > mockTime s"
  shows "\<exists>it l. map_get (key it) (items s) = Some it \<and>
      mset (recency (new_cache n) [] cs) = mset (map snd (items s)) \<and>
      (\<forall>x \<in> snd ` set (items s). priority it \<le> priority x) \<and>
      avl_findKey (priority it) (priorityTree s) = Some l \<and> dll_head l = Some it \<and>
      l = filter (\<lambda>x. priority x = priority it) (recency (new_cache n) [] cs) \<and>
      find (\<lambda>x. priority x = priority it) (recency (new_cache n) [] cs) = Some it \<and>
      set_op s k v p e = Inr (addItem k v p e (deleteItem it s)) \<and>
      map_get (key it) (items (addItem k v p e (deleteItem it s))) = None \<and>
      (\<forall>k'. k' \<noteq> k \<and> k' \<noteq> key it \<longrightarrow>
         map_get k' (items (addItem k v p e (deleteItem it s))) = map_get k' (items s))"
proof -
  have inv: "cache_inv s" using assms(1) by (rule reachable_inv)
  have "lru_inv (new_cache n) []" by (simp add: lru_inv_def new_cache_def avl_findKey_def)
  from lru_run[OF new_cache_inv this assms(1)] have lru: "lru_inv s (recency (new_cache n) [] cs)" .
  from set_op_evict_priority[OF inv assms(2-5), of v p e] obtain q l it where
    m: "avl_findKey q (priorityTree s) = Some l" "dll_head l = Some it" "priority it = q"
       "map_get (key it) (items s) = Some it" "\<forall>x \<in> snd ` set (items s). q \<le> priority x"
       "set_op s k v p e = Inr (addItem k v p e (deleteItem it s))" by blast
  have l: "l = filter (\<lambda>x. priority x = q) (recency (new_cache n) [] cs)"
    using lru m(1) by (simp add: lru_inv_def)
  obtain l' where "l = it # l'" using m(2) by (auto simp: dll_head_def split: list.splits)
  then have f: "find (\<lambda>x. priority x = q) (recency (new_cache n) [] cs) = Some it"
    using l find_filter_head by metis
  have ms: "mset (recency (new_cache n) [] cs) = mset (map snd (items s))"
    using lru by (simp only: lru_inv_def)
  have "key it \<noteq> k" using m(4) assms(2) by auto
  then have fr: "map_get (key it) (items (addItem k v p e (deleteItem it s))) = None \<and>
      (\<forall>k'. k' \<noteq> k \<and> k' \<noteq> key it \<longrightarrow>
         map_get k' (items (addItem k v p e (deleteItem it s))) = map_get k' (items s))"
    by (simp add: replace_lookup)
  show ?thesis using m l f ms fr by blast
qed

theorem lowest_priority_lru_evicted_witness:
  "run (new_cache 2) calls_lru = Inr cache_lru \<and>
   map_get ''C'' (items cache_lru) = None \<and>
   numItems cache_lru \<ge> maxItems cache_lru \<and> items cache_lru \<noteq> [] \<and>
   list_all (\<lambda>x. expTime x > mockTime cache_lru) (map snd (items cache_lru)) \<and>
   (\<exists>it. map_get (key it) (items cache_lru) = Some it \<and>
      find (\<lambda>x. priority x = priority it) (recency (new_cache 2) [] calls_lru) = Some it \<and>
      set_op cache_lru ''C'' 3 5 110 = Inr (addItem ''C'' 3 5 110 (deleteItem it cache_lru)))"
proof -
  have h2: "map_get ''C'' (items cache_lru) = None" by code_simp
  have h3: "numItems cache_lru \<ge> maxItems cache_lru" by code_simp
  have h4: "items cache_lru \<noteq> []" by code_simp
  have h5: "list_all (\<lambda>x. expTime x > mockTime cache_lru) (map snd (items cache_lru))" by code_simp
  then have h5': "\<forall>x \<in> snd ` set (items cache_lru). expTime x > mockTime cache_lru"
    by (simp add: list_all_iff)
  from lowest_priority_lru_evicted[OF cache_lru_run h2 h3 h4 h5', where v = 3 and p = 5 and e = 110]
    cache_lru_run h2 h3 h4 h5
  show ?thesis by blast
qed

text \<open>
  For an integer maxItems of at least 1 every sequence of calls runs to
  completion (no call throws) and numItems never exceeds maxItems.
\<close>

lemma capacity_bound_integer:
  assumes "1 \<le> n"
  shows "\<exists>s. run (new_cache n) cs = Inr s \<and> numItems s \<le> maxItems s \<and> maxItems s = n"
proof -
  obtain s where s: "run (new_cache n) cs = Inr s" using run_inv[OF new_cache_inv, of n cs] by blast
  let ?P = "\<lambda>s::'a cache. (cache_inv s \<and> 1 \<le> maxItems s \<and> numItems s \<le> maxItems s) \<and> maxItems s = n"
  have "?P (new_cache n)" using assms new_cache_inv[of n] by (simp add: new_cache_def)
  moreover have "\<And>c s s'. ?P s \<Longrightarrow> step c s = Inr s' \<Longrightarrow> ?P s'" using capacity_step by metis
  ultimately have "?P s" using s by (rule run_invariant)
  then show ?thesis using s by simp
qed

text \<open>
  Claim C3. The capacity bound is broken by the code for maxItems = 0: the
  constructor accepts 0, and the single call set(''A'', 1, 15, 100) on the
  fresh cache completes with the entry stored, numItems = 1 and maxItems = 0.
  The header of src/index.ts asks that set leave never more items than the
  maximum capacity.
\<close>

theorem capacity_bound_broken_at_zero:
  "run (new_cache 0) [Set ''A'' 1 15 100] = Inr cache_zero \<and>
   numItems cache_zero = 1 \<and> maxItems cache_zero = 0 \<and>
   \<not> numItems cache_zero \<le> maxItems cache_zero"
  by code_simp

text \<open>
  Claim C4. In every cache reached from a fresh one by any sequence of get, set
  and setMockTime calls, numItems is the number of entries of the Map items
  (whose keys are pairwise different), the total number of items over all
  lists of expTree, and the total number of items over all lists of
  priorityTree.
\<close>
theorem entry_count_consistent:
  assumes "run (new_cache n) cs = Inr s"
  shows "numItems s = int (length (items s)) \<and> distinct (map fst (items s)) \<and>
         numItems s = int (total_members (expTree s)) \<and>
         numItems s = int (total_members (priorityTree s))"
proof -
  have inv: "cache_inv s" using assms by (rule reachable_inv)
  have "length (members (expTree s)) = length (items s)" "length (members (priorityTree s)) = length (items s)"
    using inv by (metis cache_inv_def length_map size_mset)+
  then show ?thesis using inv by (simp add: cache_inv_def total_members_length)
qed

theorem entry_count_consistent_witness:
  "run (new_cache 2) calls_expired = Inr cache_expired \<and>
   numItems cache_expired = 2 \<and> length (items cache_expired) = 2 \<and>
   total_members (expTree cache_expired) = 2 \<and> total_members (priorityTree cache_expired) = 2"
  using entry_count_consistent[OF cache_expired_run] cache_expired_run
  by (simp add: cache_expired_def)

text \<open>
  Claim C5. get on the key of a present entry with expTime at most mockTime
  returns undefined, as get on a key that is not in the cache does, and leaves
  numItems, the Map items, expTree and priorityTree as they were.
\<close>
theorem get_expired_is_absent:
  assumes "map_get k (items s) = Some it" "expTime it \<le> mockTime s" "map_get k' (items s) = None"
  shows "fst (get s k) = None \<and> fst (get s k) = fst (get s k') \<and>
         numItems (snd (get s k)) = numItems s \<and> items (snd (get s k)) = items s \<and>
         expTree (snd (get s k)) = expTree s \<and> priorityTree (snd (get s k)) = priorityTree s"
  using assms by (simp add: get_def)

theorem get_expired_is_absent_witness:
  "map_get ''A'' (items cache_expired) = Some itemA \<and> expTime itemA \<le> mockTime cache_expired \<and>
   map_get ''Z'' (items cache_expired) = None \<and>
   fst (get cache_expired ''A'') = None \<and> fst (get cache_expired ''A'') = fst (get cache_expired ''Z'') \<and>
   numItems (snd (get cache_expired ''A'')) = numItems cache_expired \<and>
   items (snd (get cache_expired ''A'')) = items cache_expired \<and>
   expTree (snd (get cache_expired ''A'')) = expTree cache_expired \<and>
   priorityTree (snd (get cache_expired ''A'')) = priorityTree cache_expired"
proof -
  have h1: "map_get ''A'' (items cache_expired) = Some itemA" by code_simp
  have h2: "expTime itemA \<le> mockTime cache_expired" by code_simp
  have h3: "map_get ''Z'' (items cache_expired) = None" by code_simp
  from get_expired_is_absent[OF h1 h2 h3] h1 h2 h3 show ?thesis by blast
qed

text \<open>
  Claim C6. In a cache reached from a fresh one, set on a key that is present
  completes: it is deleteItem of the old entry followed by addItem. After
  deleteItem the key is in neither the Map nor any list of either tree; after
  addItem the Map holds the fresh entry under the key, the fresh entry is in
  expTree and is the last (most recently used) of the list of its priority,
  and a get of the key, if the new expTime is after mockTime, returns the new
  value.
\<close>

theorem set_existing_key_replaces:
  fixes s :: "'v cache" and v :: 'v and p e :: int
  assumes "run (new_cache n) cs = Inr s" and "map_get k (items s) = Some old"
  defines "s1 \<equiv> deleteItem old s"
  defines "new \<equiv> \<lparr>key = k, val = v, expTime = e, priority = p\<rparr>"
  defines "s' \<equiv> addItem k v p e s1"
  shows "set_op s k v p e = Inr s' \<and>
     map_get k (items s1) = None \<and>
     (\<forall>x \<in> set (members (expTree s1)). key x \<noteq> k) \<and>
     (\<forall>x \<in> set (members (priorityTree s1)). key x \<noteq> k) \<and>
     map_get k (items s') = Some new \<and>
     new \<in> set (members (expTree s')) \<and>
     avl_findKey p (priorityTree s') =
       Some ((case avl_findKey p (priorityTree s1) of None \<Rightarrow> [] | Some l \<Rightarrow> l) @ [new]) \<and>
     (mockTime s' < e \<longrightarrow> fst (get s' k) = Some v)"
proof -
  have inv: "cache_inv s" using assms(1) by (rule reachable_inv)
  have ko: "key old = k" using present_member(1)[OF inv assms(2)] .
  have inv1: "cache_inv s1" unfolding s1_def using deleteItem_inv[OF inv] assms(2) ko by simp
  have abs: "map_get k (items s1) = None" unfolding s1_def using ko by (simp add: deleteItem_fields map_get_delete)
  have inv': "cache_inv s'" unfolding s'_def using addItem_inv[OF inv1 abs] .
  have pres: "map_get k (items s') = Some new" unfolding s'_def new_def by (simp add: addItem_fields map_get_set)
  have e1: "\<forall>x \<in> set (members (expTree s1)). key x \<noteq> k"
    using member_iff(1)[OF inv1] abs by auto
  have p1: "\<forall>x \<in> set (members (priorityTree s1)). key x \<noteq> k"
    using member_iff(2)[OF inv1] abs by auto
  have ne: "new \<in> set (members (expTree s'))"
    using member_iff(1)[OF inv', of new] pres by (simp add: new_def)
  have g: "mockTime s' < e \<longrightarrow> fst (get s' k) = Some v"
    using pres by (auto simp: get_def new_def)
  show ?thesis using set_op_update[OF assms(2)] abs e1 p1 pres ne g
    unfolding s'_def s1_def new_def by (simp add: findKey_addItem_priority)
qed

theorem set_existing_key_replaces_witness:
  "run (new_cache 2) calls_full = Inr cache_full \<and>
   map_get ''A'' (items cache_full) = Some itemA \<and>
   mockTime (addItem ''A'' 9 5 200 (deleteItem itemA cache_full)) < 200 \<and>
   set_op cache_full ''A'' 9 5 200 = Inr (addItem ''A'' 9 5 200 (deleteItem itemA cache_full)) \<and>
   map_get ''A'' (items (deleteItem itemA cache_full)) = None \<and>
   fst (get (addItem ''A'' 9 5 200 (deleteItem itemA cache_full)) ''A'') = Some 9"
proof -
  have h2: "map_get ''A'' (items cache_full) = Some itemA" by code_simp
  have h3: "mockTime (addItem ''A'' (9::int) 5 200 (deleteItem itemA cache_full)) < 200" by code_simp
  from set_existing_key_replaces[OF cache_full_run h2, where v = 9 and p = 5 and e = 200]
    cache_full_run h2 h3
  show ?thesis by blast
qed

text \<open>
  Claim C7. The constructor accepts maxItems = 0, and set on the fresh cache of
  capacity 0 finds no tree node to evict and goes on to insert: afterwards the
  cache holds the entry and numItems is 1.
\<close>
theorem zero_capacity_set_inserts:
  "set_op (new_cache 0) k v p e = Inr (addItem k v p e (new_cache 0)) \<and>
   numItems (addItem k v p e (new_cache 0)) = 1 \<and>
   map_get k (items (addItem k v p e (new_cache 0))) = Some \<lparr>key = k, val = v, expTime = e, priority = p\<rparr>"
  by (simp add: set_op_def new_cache_def map_get_def avl_min_def addItem_fields)

text \<open>
  Claim C8. In a cache reached from a fresh one, get on the key of a present
  entry with expTime after mockTime returns the entry's value and moves the
  entry to the tail of the list of its priority (the list holds it once).
  Nothing else changes: the other lists of priorityTree and its keys, the Map
  items, numItems, expTree, mockTime and maxItems are as before.
\<close>

theorem get_unexpired_moves_to_tail:
  assumes "run (new_cache n) cs = Inr s" and "map_get k (items s) = Some it" and "mockTime s < expTime it"
  shows "\<exists>l. avl_findKey (priority it) (priorityTree s) = Some l \<and> it \<in> set l \<and> distinct l \<and>
      fst (get s k) = Some (val it) \<and>
      avl_findKey (priority it) (priorityTree (snd (get s k))) = Some (remove1 it l @ [it]) \<and>
      (\<forall>q. q \<noteq> priority it \<longrightarrow>
         avl_findKey q (priorityTree (snd (get s k))) = avl_findKey q (priorityTree s)) \<and>
      map fst (priorityTree (snd (get s k))) = map fst (priorityTree s) \<and>
      items (snd (get s k)) = items s \<and> numItems (snd (get s k)) = numItems s \<and>
      expTree (snd (get s k)) = expTree s \<and> mockTime (snd (get s k)) = mockTime s \<and>
      maxItems (snd (get s k)) = maxItems s"
proof -
  have inv: "cache_inv s" using assms(1) by (rule reachable_inv)
  from get_hit[OF inv assms(2,3)] obtain l where
    l: "avl_findKey (priority it) (priorityTree s) = Some l" "it \<in> set l"
       "get s k = (Some (val it),
          s\<lparr>priorityTree := avl_setValue (priority it) (remove1 it l @ [it]) (priorityTree s)\<rparr>)"
    by blast
  have d: "distinct l" using group_distinct[OF members_distinct(2)[OF inv] l(1)] .
  show ?thesis using l d by (auto simp: findKey_setValue map_fst_setValue)
qed

theorem get_unexpired_moves_to_tail_witness:
  "run (new_cache 2) calls_full = Inr cache_full \<and>
   map_get ''A'' (items cache_full) = Some itemA \<and> mockTime cache_full < expTime itemA \<and>
   (\<exists>l. avl_findKey (priority itemA) (priorityTree cache_full) = Some l \<and>
      fst (get cache_full ''A'') = Some (val itemA) \<and>
      avl_findKey (priority itemA) (priorityTree (snd (get cache_full ''A''))) =
        Some (remove1 itemA l @ [itemA]) \<and>
      items (snd (get cache_full ''A'')) = items cache_full \<and>
      expTree (snd (get cache_full ''A'')) = expTree cache_full)"
proof -
  have h2: "map_get ''A'' (items cache_full) = Some itemA" by code_simp
  have h3: "mockTime cache_full < expTime itemA" by code_simp
  from get_unexpired_moves_to_tail[OF cache_full_run h2 h3] cache_full_run h2 h3
  show ?thesis by blast
qed

text \<open>
  Claim C9. In a cache reached from a fresh one, set on a key that is present
  is deleteItem of the old entry followed by addItem, with no capacity check:
  numItems is unchanged, every other key of the Map keeps its entry (value,
  priority and expTime), and an item of another key is in a tree afterwards
  exactly when it was before.
\<close>

theorem set_existing_key_evicts_nothing:
  fixes s :: "'v cache" and v :: 'v and p e :: int
  assumes "run (new_cache n) cs = Inr s" and "map_get k (items s) = Some old"
  defines "s' \<equiv> addItem k v p e (deleteItem old s)"
  shows "set_op s k v p e = Inr s' \<and> numItems s' = numItems s \<and>
     (\<forall>k'. k' \<noteq> k \<longrightarrow> map_get k' (items s') = map_get k' (items s)) \<and>
     (\<forall>x. key x \<noteq> k \<longrightarrow> (x \<in> set (members (expTree s')) \<longleftrightarrow> x \<in> set (members (expTree s))) \<and>
          (x \<in> set (members (priorityTree s')) \<longleftrightarrow> x \<in> set (members (priorityTree s))))"
proof -
  have inv: "cache_inv s" using assms(1) by (rule reachable_inv)
  have ko: "key old = k" using present_member(1)[OF inv assms(2)] .
  have so: "set_op s k v p e = Inr s'" unfolding s'_def using assms(2) by (rule set_op_update)
  have inv': "cache_inv s'" using set_op_inv[OF inv, of k v p e] so by simp
  have lk: "\<forall>k'. k' \<noteq> k \<longrightarrow> map_get k' (items s') = map_get k' (items s)"
    unfolding s'_def using ko by (simp add: replace_lookup)
  have n: "numItems s' = numItems s" unfolding s'_def by (simp add: addItem_fields deleteItem_fields)
  show ?thesis using so n lk member_iff[OF inv] member_iff[OF inv'] by simp
qed

theorem set_existing_key_evicts_nothing_witness:
  "run (new_cache 2) calls_full = Inr cache_full \<and>
   map_get ''B'' (items cache_full) = Some itemB15 \<and>
   numItems cache_full = maxItems cache_full \<and>
   set_op cache_full ''B'' 7 1 300 = Inr (addItem ''B'' 7 1 300 (deleteItem itemB15 cache_full)) \<and>
   numItems (addItem ''B'' 7 1 300 (deleteItem itemB15 cache_full)) = numItems cache_full \<and>
   map_get ''A'' (items (addItem ''B'' 7 1 300 (deleteItem itemB15 cache_full))) =
     map_get ''A'' (items cache_full)"
proof -
  have h2: "map_get ''B'' (items cache_full) = Some itemB15" by code_simp
  have h3: "numItems cache_full = maxItems cache_full" by code_simp
  have ne: "''A'' \<noteq> ''B''" by simp
  note c = set_existing_key_evicts_nothing[OF cache_full_run h2, where v = 7 and p = 1 and e = 300]
  note c1 = c[THEN conjunct1]
  note c2 = c[THEN conjunct2, THEN conjunct1]
  note c3 = c[THEN conjunct2, THEN conjunct2, THEN conjunct1, rule_format, OF ne]
  show ?thesis using cache_full_run h2 h3 c1 c2 c3 by (intro conjI) assumption+
qed

text \<open>
  Claim C10. get on the key of a present entry with expTime at most mockTime
  returns the cache unchanged in every field: the entry keeps its position in
  the list of its priority.
\<close>
theorem get_expired_changes_nothing:
  assumes "map_get k (items s) = Some it" "expTime it \<le> mockTime s"
  shows "snd (get s k) = s"
  using assms by (simp add: get_def)

theorem get_expired_changes_nothing_witness:
  "map_get ''A'' (items cache_expired) = Some itemA \<and> expTime itemA \<le> mockTime cache_expired \<and>
   snd (get cache_expired ''A'') = cache_expired"
proof -
  have h1: "map_get ''A'' (items cache_expired) = Some itemA" by code_simp
  have h2: "expTime itemA \<le> mockTime cache_expired" by code_simp
  from get_expired_changes_nothing[OF h1 h2] h1 h2 show ?thesis by blast
qed

end
